theory Spec2Isabelle
  imports Main "HOL-Library.AList"
begin

section \<open>Values of the program\<close>

text \<open>
  The service in \<^verbatim>\<open>main.py\<close> works on the trees that Python's \<^verbatim>\<open>json\<close> module
  produces: \<^verbatim>\<open>None\<close>, \<^verbatim>\<open>bool\<close>, \<^verbatim>\<open>int\<close>, \<^verbatim>\<open>float\<close>, \<^verbatim>\<open>str\<close>, \<^verbatim>\<open>list\<close> and
  \<^verbatim>\<open>dict\<close> with string keys. A \<^verbatim>\<open>dict\<close> keeps its keys in insertion order, so it is an
  association list; assignment to a key (\<^const>\<open>AList.update\<close>) replaces the value in place
  or appends the pair. Floating-point numbers are only passed through by the program, so
  their type is the parameter \<open>'f\<close>. Text is a \<^typ>\<open>string\<close> whose characters stand for the
  code points 0 to 255.
\<close>

datatype 'f json =
    JNull
  | JBool bool
  | JInt int
  | JFloat 'f
  | JStr string
  | JList "'f json list"
  | JDict "(string \<times> 'f json) list"

text \<open>
  Exceptions are values. \<open>ValueError\<close> carries the message given to it in \<^verbatim>\<open>extract_json\<close>;
  \<open>TypeError\<close> and \<open>AttributeError\<close> are what the interpreter raises on a value of the wrong
  type; \<open>JSONDecodeError\<close> and \<open>RequestException\<close> come from the collaborators
  (\<^verbatim>\<open>json.loads\<close>, \<^verbatim>\<open>requests\<close>) with their message.
\<close>

datatype exc =
    ValueError string
  | TypeError string
  | AttributeError string
  | JSONDecodeError string
  | RequestException string
  | RecursionError

text \<open>\<^verbatim>\<open>str(e)\<close> of an exception built from one message is that message.\<close>

fun exc_str :: "exc \<Rightarrow> string" where
  "exc_str (ValueError m) = m"
| "exc_str (TypeError m) = m"
| "exc_str (AttributeError m) = m"
| "exc_str (JSONDecodeError m) = m"
| "exc_str (RequestException m) = m"
| "exc_str RecursionError = ''maximum recursion depth exceeded''"

fun type_name :: "'f json \<Rightarrow> string" where
  "type_name JNull = ''NoneType''"
| "type_name (JBool b) = ''bool''"
| "type_name (JInt n) = ''int''"
| "type_name (JFloat x) = ''float''"
| "type_name (JStr s) = ''str''"
| "type_name (JList xs) = ''list''"
| "type_name (JDict d) = ''dict''"

definition quoted :: "string \<Rightarrow> string" where
  "quoted s = [CHR 0x27] @ s @ [CHR 0x27]"

definition not_iterable :: "'f json \<Rightarrow> exc" where
  "not_iterable v = TypeError (quoted (type_name v) @ '' object is not iterable'')"

definition no_attribute :: "'f json \<Rightarrow> string \<Rightarrow> exc" where
  "no_attribute v a = AttributeError (quoted (type_name v) @ '' object has no attribute '' @ quoted a)"

subsection \<open>Dictionaries\<close>

text \<open>\<^verbatim>\<open>d.get(k, default)\<close>: the value stored under \<open>k\<close>, the default when the key is absent.\<close>

definition dict_get :: "(string \<times> 'v) list \<Rightarrow> string \<Rightarrow> 'v \<Rightarrow> 'v" where
  "dict_get d k dflt = (case map_of d k of Some v \<Rightarrow> v | None \<Rightarrow> dflt)"

text \<open>\<^verbatim>\<open>d.setdefault(k, v)\<close>: stores \<open>v\<close> under \<open>k\<close> only when the key is absent.\<close>

definition setdefault :: "(string \<times> 'v) list \<Rightarrow> string \<Rightarrow> 'v \<Rightarrow> (string \<times> 'v) list" where
  "setdefault d k v = (case map_of d k of Some u \<Rightarrow> d | None \<Rightarrow> d @ [(k, v)])"

subsection \<open>Strings\<close>

text \<open>
  \<^verbatim>\<open>str.isspace\<close> on the code points below 256: tab to carriage return, the four
  separators 28 to 31, the space, NEL (133) and the no-break space (160).
\<close>

definition isspace :: "char \<Rightarrow> bool" where
  "isspace c =
     (let n = (of_char c :: nat)
      in (9 \<le> n \<and> n \<le> 13) \<or> (28 \<le> n \<and> n \<le> 32) \<or> n = 133 \<or> n = 160)"

definition strip :: "string \<Rightarrow> string" where
  "strip s = rev (dropWhile isspace (rev (dropWhile isspace s)))"

text \<open>Decimal digits of a natural number, as \<^verbatim>\<open>str\<close> and an f-string print an \<^verbatim>\<open>int\<close>.\<close>

fun str_nat :: "nat \<Rightarrow> string" where
  "str_nat n =
     (if n < 10 then [''0123456789'' ! n]
      else str_nat (n div 10) @ [''0123456789'' ! (n mod 10)])"

text \<open>\<^verbatim>\<open>s.count(c)\<close> for a pattern of one character.\<close>

fun count_char :: "char \<Rightarrow> string \<Rightarrow> nat" where
  "count_char c [] = 0"
| "count_char c (x # xs) = (if x = c then 1 + count_char c xs else count_char c xs)"

text \<open>\<^verbatim>\<open>s.find(c)\<close> for one character; \<open>None\<close> stands for the result \<^verbatim>\<open>-1\<close>.\<close>

fun find_char :: "char \<Rightarrow> string \<Rightarrow> nat \<Rightarrow> nat option" where
  "find_char c [] i = None"
| "find_char c (x # xs) i = (if x = c then Some i else find_char c xs (i + 1))"

text \<open>The slice \<^verbatim>\<open>s[a:b]\<close> for \<open>0 \<le> a\<close> and \<open>0 \<le> b\<close>.\<close>

definition slice :: "nat \<Rightarrow> nat \<Rightarrow> 'a list \<Rightarrow> 'a list" where
  "slice a b s = take (b - a) (drop a s)"

section \<open>The \<^verbatim>\<open>json\<close> module\<close>

text \<open>
  \<^verbatim>\<open>json.loads\<close> and \<^verbatim>\<open>json.dumps\<close> belong to the standard library, not to the program.
  \<^verbatim>\<open>extract_json\<close> below takes the decoder as a parameter, and what is proved of it holds
  for every decoder. The two functions of this section follow the JSON grammar as that
  module reads and writes it; they are the decoder at concrete inputs and the canonical
  encoding.
\<close>

subsection \<open>Decoding\<close>

text \<open>
  The decoder skips the four JSON whitespace characters, keeps the last value of a
  repeated key at the place of its first occurrence, reads a number without fraction and
  exponent as an \<^verbatim>\<open>int\<close> and hands the text of any other number to \<open>parse_float\<close>. An
  escape \<^verbatim>\<open>\uXXXX\<close> is read when its code point is below 256. The recursion is on a
  counter that starts above twice the length of the text; a value and the list that holds
  it take one step each, and the counter is never exhausted (\<open>json_loads_no_recursion\<close>).
\<close>

definition json_ws :: "char \<Rightarrow> bool" where
  "json_ws c \<longleftrightarrow> c = CHR '' '' \<or> c = CHR 0x09 \<or> c = CHR 0x0A \<or> c = CHR 0x0D"

definition is_digit :: "char \<Rightarrow> bool" where
  "is_digit c \<longleftrightarrow> 48 \<le> (of_char c :: nat) \<and> (of_char c :: nat) \<le> 57"

definition digits_val :: "string \<Rightarrow> nat" where
  "digits_val ds = foldl (\<lambda>a c. 10 * a + ((of_char c :: nat) - 48)) 0 ds"

definition hex_val :: "char \<Rightarrow> nat option" where
  "hex_val c =
     (let n = (of_char c :: nat)
      in if 48 \<le> n \<and> n \<le> 57 then Some (n - 48)
         else if 97 \<le> n \<and> n \<le> 102 then Some (n - 87)
         else if 65 \<le> n \<and> n \<le> 70 then Some (n - 55)
         else None)"

definition unescape :: "char \<Rightarrow> char option" where
  "unescape e =
     (if e = CHR 0x22 then Some (CHR 0x22)
      else if e = CHR 0x5C then Some (CHR 0x5C)
      else if e = CHR ''/'' then Some (CHR ''/'')
      else if e = CHR ''b'' then Some (CHR 0x08)
      else if e = CHR ''f'' then Some (CHR 0x0C)
      else if e = CHR ''n'' then Some (CHR 0x0A)
      else if e = CHR ''r'' then Some (CHR 0x0D)
      else if e = CHR ''t'' then Some (CHR 0x09)
      else None)"

fun scan_string :: "string \<Rightarrow> string \<Rightarrow> exc + (string \<times> string)" where
  "scan_string [] acc = Inl (JSONDecodeError ''Unterminated string'')"
| "scan_string (c # cs) acc =
     (if c = CHR 0x22 then Inr (acc, cs)
      else if c = CHR 0x5C then
        (case cs of
           [] \<Rightarrow> Inl (JSONDecodeError ''Unterminated string'')
         | e # r \<Rightarrow>
             if e = CHR ''u'' then
               (case map hex_val (take 4 r) of
                  [Some a, Some b, Some c, Some d] \<Rightarrow>
                    if a = 0 \<and> b = 0 then scan_string (drop 4 r) (acc @ [char_of (16 * c + d)])
                    else Inl (JSONDecodeError ''code point above 255'')
                | _ \<Rightarrow> Inl (JSONDecodeError ''Invalid unicode escape''))
             else
               (case unescape e of
                  Some x \<Rightarrow> scan_string r (acc @ [x])
                | None \<Rightarrow> Inl (JSONDecodeError ''Invalid escape'')))
      else if (of_char c :: nat) < 32 then Inl (JSONDecodeError ''Invalid control character'')
      else scan_string cs (acc @ [c]))"

definition parse_number :: "(string \<Rightarrow> 'f) \<Rightarrow> string \<Rightarrow> 'f json option" where
  "parse_number parse_float a =
     (let neg = (a \<noteq> [] \<and> hd a = CHR ''-'');
          r = (if neg then tl a else a);
          ip = takeWhile is_digit r;
          r1 = dropWhile is_digit r;
          has_frac = (r1 \<noteq> [] \<and> hd r1 = CHR ''.'');
          fp = (if has_frac then takeWhile is_digit (tl r1) else []);
          r2 = (if has_frac then dropWhile is_digit (tl r1) else r1);
          has_exp = (r2 \<noteq> [] \<and> (hd r2 = CHR ''e'' \<or> hd r2 = CHR ''E''));
          r3 = (if has_exp then tl r2 else r2);
          r4 = (if has_exp \<and> r3 \<noteq> [] \<and> (hd r3 = CHR ''+'' \<or> hd r3 = CHR ''-'') then tl r3 else r3);
          ep = (if has_exp then takeWhile is_digit r4 else []);
          r5 = (if has_exp then dropWhile is_digit r4 else r4)
      in if ip = [] \<or> (hd ip = CHR ''0'' \<and> length ip \<noteq> 1) \<or> (has_frac \<and> fp = [])
            \<or> (has_exp \<and> ep = []) \<or> r5 \<noteq> [] then None
         else if has_frac \<or> has_exp then Some (JFloat (parse_float a))
         else Some (JInt (if neg then - int (digits_val ip) else int (digits_val ip))))"

definition atom_end :: "char \<Rightarrow> bool" where
  "atom_end c \<longleftrightarrow> json_ws c \<or> c = CHR '','' \<or> c = CHR '']'' \<or> c = CHR ''}''"

definition parse_atom :: "(string \<Rightarrow> 'f) \<Rightarrow> string \<Rightarrow> exc + ('f json \<times> string)" where
  "parse_atom parse_float s =
     (let a = takeWhile (\<lambda>c. \<not> atom_end c) s;
          rest = dropWhile (\<lambda>c. \<not> atom_end c) s
      in if a = ''true'' then Inr (JBool True, rest)
         else if a = ''false'' then Inr (JBool False, rest)
         else if a = ''null'' then Inr (JNull, rest)
         else if a = ''NaN'' \<or> a = ''Infinity'' \<or> a = ''-Infinity'' then
           Inr (JFloat (parse_float a), rest)
         else (case parse_number parse_float a of
                 Some v \<Rightarrow> Inr (v, rest)
               | None \<Rightarrow> Inl (JSONDecodeError ''Expecting value'')))"

fun parse_value :: "(string \<Rightarrow> 'f) \<Rightarrow> nat \<Rightarrow> string \<Rightarrow> exc + ('f json \<times> string)"
and parse_members ::
  "(string \<Rightarrow> 'f) \<Rightarrow> nat \<Rightarrow> string \<Rightarrow> (string \<times> 'f json) list \<Rightarrow>
   exc + ((string \<times> 'f json) list \<times> string)"
and parse_elements ::
  "(string \<Rightarrow> 'f) \<Rightarrow> nat \<Rightarrow> string \<Rightarrow> 'f json list \<Rightarrow> exc + ('f json list \<times> string)"
where
  "parse_value pf 0 s = Inl RecursionError"
| "parse_value pf (Suc n) [] = Inl (JSONDecodeError ''Expecting value'')"
| "parse_value pf (Suc n) (c # cs) =
     (if c = CHR ''{'' then
        (case dropWhile json_ws cs of
           [] \<Rightarrow> Inl (JSONDecodeError ''Expecting property name enclosed in double quotes'')
         | x # r \<Rightarrow>
             if x = CHR ''}'' then Inr (JDict [], r)
             else (case parse_members pf n (x # r) [] of
                     Inl e \<Rightarrow> Inl e
                   | Inr (kvs, rest) \<Rightarrow> Inr (JDict kvs, rest)))
      else if c = CHR ''['' then
        (case dropWhile json_ws cs of
           [] \<Rightarrow> Inl (JSONDecodeError ''Expecting value'')
         | x # r \<Rightarrow>
             if x = CHR '']'' then Inr (JList [], r)
             else (case parse_elements pf n (x # r) [] of
                     Inl e \<Rightarrow> Inl e
                   | Inr (xs, rest) \<Rightarrow> Inr (JList xs, rest)))
      else if c = CHR 0x22 then
        (case scan_string cs [] of
           Inl e \<Rightarrow> Inl e
         | Inr (s, rest) \<Rightarrow> Inr (JStr s, rest))
      else parse_atom pf (c # cs))"
| "parse_members pf 0 s acc = Inl RecursionError"
| "parse_members pf (Suc n) [] acc =
     Inl (JSONDecodeError ''Expecting property name enclosed in double quotes'')"
| "parse_members pf (Suc n) (q # cs) acc =
     (if q \<noteq> CHR 0x22 then
        Inl (JSONDecodeError ''Expecting property name enclosed in double quotes'')
      else
        (case scan_string cs [] of
           Inl e \<Rightarrow> Inl e
         | Inr (k, r1) \<Rightarrow>
             (case dropWhile json_ws r1 of
                [] \<Rightarrow> Inl (JSONDecodeError ''Expecting : delimiter'')
              | col # r2 \<Rightarrow>
                  if col \<noteq> CHR '':'' then Inl (JSONDecodeError ''Expecting : delimiter'')
                  else
                    (case parse_value pf n (dropWhile json_ws r2) of
                       Inl e \<Rightarrow> Inl e
                     | Inr (v, r3) \<Rightarrow>
                         (case dropWhile json_ws r3 of
                            [] \<Rightarrow> Inl (JSONDecodeError ''Expecting , delimiter'')
                          | d # r4 \<Rightarrow>
                              if d = CHR ''}'' then Inr (AList.update k v acc, r4)
                              else if d = CHR '','' then
                                parse_members pf n (dropWhile json_ws r4) (AList.update k v acc)
                              else Inl (JSONDecodeError ''Expecting , delimiter''))))))"
| "parse_elements pf 0 s acc = Inl RecursionError"
| "parse_elements pf (Suc n) s acc =
     (case parse_value pf n s of
        Inl e \<Rightarrow> Inl e
      | Inr (v, r1) \<Rightarrow>
          (case dropWhile json_ws r1 of
             [] \<Rightarrow> Inl (JSONDecodeError ''Expecting , delimiter'')
           | d # r2 \<Rightarrow>
               if d = CHR '']'' then Inr (acc @ [v], r2)
               else if d = CHR '','' then parse_elements pf n (dropWhile json_ws r2) (acc @ [v])
               else Inl (JSONDecodeError ''Expecting , delimiter'')))"

definition json_loads :: "(string \<Rightarrow> 'f) \<Rightarrow> string \<Rightarrow> exc + 'f json" where
  "json_loads parse_float s =
     (case parse_value parse_float (Suc (2 * length s)) (dropWhile json_ws s) of
        Inl e \<Rightarrow> Inl e
      | Inr (v, rest) \<Rightarrow>
          if dropWhile json_ws rest = [] then Inr v else Inl (JSONDecodeError ''Extra data''))"

text \<open>
  A parsing step consumes its text when it does not end on the exhausted counter and,
  where it succeeds, leaves a shorter text.
\<close>

definition consumes :: "exc + ('a \<times> string) \<Rightarrow> string \<Rightarrow> bool" where
  "consumes r s =
     (case r of Inl e \<Rightarrow> e \<noteq> RecursionError | Inr (v, rest) \<Rightarrow> length rest < length s)"

subsection \<open>Encoding\<close>

text \<open>
  \<^verbatim>\<open>json.dumps\<close> with its default arguments: separators \<^verbatim>\<open>", "\<close> and \<^verbatim>\<open>": "\<close>, and every
  character outside the printable ASCII range escaped. \<open>repr_float\<close> prints a float.
\<close>

definition str_int :: "int \<Rightarrow> string" where
  "str_int n = (if n < 0 then ''-'' @ str_nat (nat (- n)) else str_nat (nat n))"

definition hex_char :: "nat \<Rightarrow> char" where
  "hex_char n = ''0123456789abcdef'' ! n"

definition escape_char :: "char \<Rightarrow> string" where
  "escape_char c =
     (if c = CHR 0x22 then [CHR 0x5C, CHR 0x22]
      else if c = CHR 0x5C then [CHR 0x5C, CHR 0x5C]
      else if c = CHR 0x0A then [CHR 0x5C, CHR ''n'']
      else if c = CHR 0x0D then [CHR 0x5C, CHR ''r'']
      else if c = CHR 0x09 then [CHR 0x5C, CHR ''t'']
      else if c = CHR 0x08 then [CHR 0x5C, CHR ''b'']
      else if c = CHR 0x0C then [CHR 0x5C, CHR ''f'']
      else if (of_char c :: nat) < 32 \<or> 126 < (of_char c :: nat) then
        [CHR 0x5C, CHR ''u'', CHR ''0'', CHR ''0'',
         hex_char ((of_char c :: nat) div 16), hex_char ((of_char c :: nat) mod 16)]
      else [c])"

definition encode_string :: "string \<Rightarrow> string" where
  "encode_string s = [CHR 0x22] @ concat (map escape_char s) @ [CHR 0x22]"

fun join :: "'a list \<Rightarrow> 'a list list \<Rightarrow> 'a list" where
  "join sep [] = []"
| "join sep [x] = x"
| "join sep (x # y # r) = x @ sep @ join sep (y # r)"

fun json_dumps :: "('f \<Rightarrow> string) \<Rightarrow> 'f json \<Rightarrow> string" where
  "json_dumps repr_float JNull = ''null''"
| "json_dumps repr_float (JBool b) = (if b then ''true'' else ''false'')"
| "json_dumps repr_float (JInt n) = str_int n"
| "json_dumps repr_float (JFloat x) = repr_float x"
| "json_dumps repr_float (JStr s) = encode_string s"
| "json_dumps repr_float (JList xs) = ''['' @ join '', '' (map (json_dumps repr_float) xs) @ '']''"
| "json_dumps repr_float (JDict d) =
     ''{'' @ join '', '' (map (\<lambda>kv. encode_string (fst kv) @ '': '' @ json_dumps repr_float (snd kv)) d) @ ''}''"

section \<open>\<^verbatim>\<open>extract_json\<close>\<close>

text \<open>
  A letter of the pattern \<^verbatim>\<open>json\<close> under \<^verbatim>\<open>re.IGNORECASE\<close>: the letter itself or its
  capital, which lies 32 code points below it.
\<close>

definition ci_eq :: "char \<Rightarrow> char \<Rightarrow> bool" where
  "ci_eq c p \<longleftrightarrow> c = p \<or> (of_char c :: nat) + 32 = of_char p"

text \<open>
  \<^verbatim>\<open>re.sub(r"^```(?:json)?", "", text, flags=re.IGNORECASE)\<close>. Without \<^verbatim>\<open>re.MULTILINE\<close> the
  anchor matches at position 0 only; the optional group is greedy.
\<close>

definition sub_open_fence :: "string \<Rightarrow> string" where
  "sub_open_fence t =
     (if take 3 t = ''```''
      then (let r = drop 3 t
            in if list_all2 ci_eq (take 4 r) ''json'' then drop 4 r else r)
      else t)"

text \<open>
  \<^verbatim>\<open>re.sub(r"```$", "", text)\<close>. The anchor \<^verbatim>\<open>$\<close> matches at the end of the text and also
  just before a newline that ends the text.
\<close>

definition sub_close_fence :: "string \<Rightarrow> string" where
  "sub_close_fence t =
     (let n = length t
      in if 3 \<le> n \<and> drop (n - 3) t = ''```'' then take (n - 3) t
         else if 4 \<le> n \<and> drop (n - 4) t = ''```\<newline>'' then take (n - 4) t @ ''\<newline>''
         else t)"

text \<open>The first three statements of \<^verbatim>\<open>extract_json\<close>.\<close>

definition strip_fences :: "string \<Rightarrow> string" where
  "strip_fences text = strip (sub_close_fence (strip (sub_open_fence (strip text))))"

text \<open>
  The loop \<^verbatim>\<open>for i in range(start, len(text))\<close>: \<open>scan cs depth i\<close> has the characters from
  index \<open>i\<close> on still to read. It answers the index at which the loop leaves the function,
  or \<open>None\<close> when the loop runs to the end of the text.
\<close>

fun scan :: "string \<Rightarrow> int \<Rightarrow> nat \<Rightarrow> nat option" where
  "scan [] depth i = None"
| "scan (c # cs) depth i =
     (if c = CHR ''{'' then scan cs (depth + 1) (i + 1)
      else if c = CHR ''}'' then
        (if depth - 1 = 0 then Some i else scan cs (depth - 1) (i + 1))
      else scan cs depth (i + 1))"

text \<open>
  \<^verbatim>\<open>extract_json\<close>, with \<^verbatim>\<open>json.loads\<close> as the parameter \<open>loads\<close>. The \<^verbatim>\<open>except\<close> clause
  around the call prints and raises the same exception again.
\<close>

definition extract_json :: "(string \<Rightarrow> exc + 'f json) \<Rightarrow> string \<Rightarrow> exc + 'f json" where
  "extract_json loads text0 =
     (let text = strip_fences text0
      in case find_char (CHR ''{'') text 0 of
           None \<Rightarrow> Inl (ValueError ''No JSON detected in LLM response'')
         | Some start \<Rightarrow>
             (case scan (drop start text) 0 start of
                Some i \<Rightarrow> loads (slice start (i + 1) text)
              | None \<Rightarrow> Inl (ValueError ''Could not match complete JSON'')))"

section \<open>\<^verbatim>\<open>normalize_suggestions\<close>\<close>

text \<open>
  What \<^verbatim>\<open>enumerate(suggestions)\<close> iterates over: the elements of a list, the characters
  of a string, the keys of a dict. Any other value raises \<open>TypeError\<close>.
\<close>

fun py_iter :: "'f json \<Rightarrow> exc + 'f json list" where
  "py_iter (JList xs) = Inr xs"
| "py_iter (JStr s) = Inr (map (\<lambda>c. JStr [c]) s)"
| "py_iter (JDict d) = Inr (map (\<lambda>kv. JStr (fst kv)) d)"
| "py_iter v = Inl (not_iterable v)"

fun is_str :: "'f json \<Rightarrow> bool" where
  "is_str (JStr s) = True"
| "is_str v = False"

fun is_dict :: "'f json \<Rightarrow> bool" where
  "is_dict (JDict d) = True"
| "is_dict v = False"

fun the_str :: "'f json \<Rightarrow> string" where
  "the_str (JStr s) = s"
| "the_str v = []"

fun the_dict :: "'f json \<Rightarrow> (string \<times> 'f json) list" where
  "the_dict (JDict d) = d"
| "the_dict v = []"

text \<open>The fallback identifier \<^verbatim>\<open>f"S{i+1}"\<close>.\<close>

definition fallback_id :: "nat \<Rightarrow> 'f json" where
  "fallback_id i = JStr (''S'' @ str_nat (i + 1))"

text \<open>
  The body of the loop: the entry appended for the element \<open>s\<close> at index \<open>i\<close>. The
  parameter \<open>py_str\<close> is the builtin \<^verbatim>\<open>str\<close>.
\<close>

definition suggestion_entry :: "('f json \<Rightarrow> string) \<Rightarrow> nat \<Rightarrow> 'f json \<Rightarrow> 'f json" where
  "suggestion_entry py_str i s =
     (if is_str s then
        JDict [(''id'', fallback_id i),
               (''title'', JStr (take 40 (the_str s))),
               (''detail'', s)]
      else if is_dict s then
        JDict [(''id'', dict_get (the_dict s) ''id'' (fallback_id i)),
               (''title'', dict_get (the_dict s) ''title''
                            (dict_get (the_dict s) ''description'' (JStr ''Suggestion''))),
               (''detail'', dict_get (the_dict s) ''detail''
                             (dict_get (the_dict s) ''description'' (JStr '''')))]
      else
        JDict [(''id'', fallback_id i),
               (''title'', JStr ''Suggestion''),
               (''detail'', JStr (py_str s))])"

fun suggestions_loop ::
  "('f json \<Rightarrow> string) \<Rightarrow> nat \<Rightarrow> 'f json list \<Rightarrow> 'f json list \<Rightarrow> 'f json list" where
  "suggestions_loop py_str i [] normalized = normalized"
| "suggestions_loop py_str i (s # rest) normalized =
     suggestions_loop py_str (i + 1) rest (normalized @ [suggestion_entry py_str i s])"

definition normalize_suggestions :: "('f json \<Rightarrow> string) \<Rightarrow> 'f json \<Rightarrow> exc + 'f json" where
  "normalize_suggestions py_str suggestions =
     (case py_iter suggestions of
        Inl e \<Rightarrow> Inl e
      | Inr xs \<Rightarrow> Inr (JList (suggestions_loop py_str 0 xs [])))"

section \<open>\<^verbatim>\<open>normalize_metrics\<close>\<close>

text \<open>
  \<open>code\<close> is a \<^verbatim>\<open>str\<close> at the only call; \<open>language\<close> is whatever the request holds under
  that key. \<^verbatim>\<open>metrics.get\<close> exists on a dict only.
\<close>

definition normalize_metrics :: "'f json \<Rightarrow> 'f json \<Rightarrow> string \<Rightarrow> exc + 'f json" where
  "normalize_metrics metrics language code =
     (let loc = JInt (int (count_char CHR ''\<newline>'' code) + 1)
      in case metrics of
           JDict m \<Rightarrow>
             Inr (JDict
               [(''language'', language),
                (''loc_before'', dict_get m ''Lines of Code Before'' loc),
                (''loc_after'', dict_get m ''Lines of Code After'' loc),
                (''reduction'', dict_get m ''Lines of Code Reduced'' (JInt 0)),
                (''redundant_removed'', dict_get m ''Redundant Variables Removed'' JNull),
                (''security_improved'',
                   dict_get m ''String Input Security Improved'' (JBool False))])
         | _ \<Rightarrow> Inl (no_attribute metrics ''get''))"

section \<open>The handler \<^verbatim>\<open>optimize\<close>\<close>

text \<open>
  The statements of \<^verbatim>\<open>optimize\<close> after the \<^verbatim>\<open>try\<close> block. They are outside the
  \<^verbatim>\<open>try\<close>, so an exception here leaves the handler (\<open>Inl\<close>). First the three
  \<^verbatim>\<open>setdefault\<close> calls, a method of \<^verbatim>\<open>dict\<close> only.
\<close>

definition fill_defaults :: "'f json \<Rightarrow> string \<Rightarrow> exc + (string \<times> 'f json) list" where
  "fill_defaults parsed code =
     (case parsed of
        JDict p0 \<Rightarrow>
          (let p1 = setdefault p0 ''optimized_code'' (JStr code);
               p2 = setdefault p1 ''suggestions'' (JList []);
               p3 = setdefault p2 ''metrics'' (JDict [])
           in Inr p3)
      | _ \<Rightarrow> Inl (no_attribute parsed ''setdefault''))"

text \<open>Then the two normalizations, each assigned back to its key, and the response.\<close>

definition fill_and_normalize ::
  "('f json \<Rightarrow> string) \<Rightarrow> 'f json \<Rightarrow> 'f json \<Rightarrow> string \<Rightarrow> exc + ('f json \<times> nat)" where
  "fill_and_normalize py_str parsed language code =
     (case fill_defaults parsed code of
        Inl e \<Rightarrow> Inl e
      | Inr p3 \<Rightarrow>
          (case normalize_suggestions py_str (dict_get p3 ''suggestions'' (JList [])) of
             Inl e \<Rightarrow> Inl e
           | Inr sugg \<Rightarrow>
               (let p4 = AList.update ''suggestions'' sugg p3
                in case normalize_metrics (dict_get p4 ''metrics'' (JDict [])) language code of
                     Inl e \<Rightarrow> Inl e
                   | Inr met \<Rightarrow> Inr (JDict (AList.update ''metrics'' met p4), 200))))"

definition error_body :: "string \<Rightarrow> 'f json" where
  "error_body msg = JDict [(''error'', JStr msg)]"

text \<open>
  \<^verbatim>\<open>optimize\<close> on the decoded request body \<open>data\<close>. The call of the model is the
  parameter \<open>call_ollama\<close>, which acts on the world \<open>w\<close> outside the process and answers an
  exception or the model's text. The result is the pair of body and status that the
  handler returns, or the exception that leaves it, and the world afterwards.
\<close>

definition optimize ::
  "('w \<Rightarrow> 'f json \<Rightarrow> string \<Rightarrow> (exc + string) \<times> 'w) \<Rightarrow> (string \<Rightarrow> exc + 'f json) \<Rightarrow>
   ('f json \<Rightarrow> string) \<Rightarrow> 'w \<Rightarrow> 'f json \<Rightarrow> (exc + ('f json \<times> nat)) \<times> 'w" where
  "optimize call_ollama loads py_str w data =
     (case data of
        JDict d \<Rightarrow>
          (let language = dict_get d ''language'' JNull;
               code = dict_get d ''code'' JNull
           in if \<not> is_str code then
                (Inr (error_body ''`code` must be a string'', 400), w)
              else
                (case call_ollama w language (the_str code) of
                   (Inl e, w') \<Rightarrow> (Inr (error_body (''LLM error: '' @ exc_str e), 500), w')
                 | (Inr raw, w') \<Rightarrow>
                     (case extract_json loads raw of
                        Inl e \<Rightarrow> (Inr (error_body (''LLM error: '' @ exc_str e), 500), w')
                      | Inr parsed \<Rightarrow>
                          (fill_and_normalize py_str parsed language (the_str code), w'))))
      | _ \<Rightarrow> (Inl (no_attribute data ''get''), w))"

section \<open>The notions of the specification\<close>

text \<open>
  The specification speaks of the brace nesting depth of a text (one up at an opening
  brace, one down at a closing one) and of the position where the depth returns to zero.
  \<open>first_return s\<close> is the length of the shortest non-empty prefix of \<open>s\<close> of depth
  zero.
\<close>

fun brace_step :: "char \<Rightarrow> int" where
  "brace_step c = (if c = CHR ''{'' then 1 else if c = CHR ''}'' then - 1 else 0)"

definition brace_depth :: "string \<Rightarrow> int" where
  "brace_depth s = sum_list (map brace_step s)"

definition first_return :: "string \<Rightarrow> nat option" where
  "first_return s = List.find (\<lambda>n. brace_depth (take n s) = 0) [1..<Suc (length s)]"



text \<open>
  A string has its braces nested when no prefix closes more braces than it opens and the
  whole string closes all it opens: \<open>depth_nonneg d s\<close> says that the depth, starting at
  \<open>d\<close>, never falls below zero along \<open>s\<close>. \<open>strings_nested\<close> asks this of every string
  of a value, keys included; \<open>values_nested\<close> asks it of the string values only.
\<close>

fun depth_nonneg :: "int \<Rightarrow> string \<Rightarrow> bool" where
  "depth_nonneg d [] = True"
| "depth_nonneg d (c # cs) = (0 \<le> d + brace_step c \<and> depth_nonneg (d + brace_step c) cs)"

definition braces_nested :: "string \<Rightarrow> bool" where
  "braces_nested s \<longleftrightarrow> depth_nonneg 0 s \<and> brace_depth s = 0"

fun strings_nested :: "'f json \<Rightarrow> bool" where
  "strings_nested (JStr s) = braces_nested s"
| "strings_nested (JList xs) = list_all strings_nested xs"
| "strings_nested (JDict d) = list_all (\<lambda>kv. braces_nested (fst kv) \<and> strings_nested (snd kv)) d"
| "strings_nested v = True"

fun values_nested :: "'f json \<Rightarrow> bool" where
  "values_nested (JStr s) = braces_nested s"
| "values_nested (JList xs) = list_all values_nested xs"
| "values_nested (JDict d) = list_all (\<lambda>kv. values_nested (snd kv)) d"
| "values_nested v = True"

definition brace_free :: "string \<Rightarrow> bool" where
  "brace_free s \<longleftrightarrow> CHR ''{'' \<notin> set s \<and> CHR ''}'' \<notin> set s"

section \<open>The decoder never exhausts its counter\<close>

lemma scan_string_shorter:
  "scan_string cs acc = Inr (k, rest) \<Longrightarrow> length rest < length cs"
proof (induction cs acc rule: scan_string.induct)
  case (1 acc)
  then show ?case by simp
next
  case (2 c cs acc)
  show ?case
  proof (cases "c = CHR 0x22")
    case True
    with "2.prems" show ?thesis by simp
  next
    case nq: False
    show ?thesis
    proof (cases "c = CHR 0x5C")
      case False
      with nq "2.prems" "2.IH"(3) show ?thesis
        by (auto split: if_splits)
    next
      case bs: True
      with nq "2.prems" obtain e r where cs: "cs = e # r"
        by (cases cs) auto
      show ?thesis
      proof (cases "e = CHR ''u''")
        case True
        with nq bs cs "2.prems" obtain a b x d where
          h: "map hex_val (take 4 r) = [Some a, Some b, Some x, Some d]" "a = 0 \<and> b = 0"
          and r: "scan_string (drop 4 r) (acc @ [char_of (16 * x + d)]) = Inr (k, rest)"
          by (auto split: list.splits option.splits if_splits)
        from "2.IH"(1) [OF nq bs cs True h(1) refl refl refl refl refl refl refl refl h(2) r]
        have "length rest < length (drop 4 r)" by simp
        then show ?thesis using cs by simp
      next
        case False
        with nq bs cs "2.prems" obtain x where
          u: "unescape e = Some x" and r: "scan_string r (acc @ [x]) = Inr (k, rest)"
          by (auto split: option.splits)
        from "2.IH"(2) [OF nq bs cs False u r] show ?thesis using cs by simp
      qed
    qed
  qed
qed

lemma consumes_Inl: "consumes (Inl e) s = (e \<noteq> RecursionError)"
  by (simp add: consumes_def)

lemma consumes_Inr: "consumes (Inr (v, rest)) s = (length rest < length s)"
  by (simp add: consumes_def)

lemma consumes_longer:
  "consumes r s \<Longrightarrow> length s \<le> length t \<Longrightarrow> consumes r t"
  by (auto simp: consumes_def split: sum.splits)

lemma scan_string_no_recursion: "scan_string cs acc \<noteq> Inl RecursionError"
  by (induction cs acc rule: scan_string.induct)
     (auto split: list.splits option.splits if_splits)

lemma scan_string_consumes: "consumes (scan_string cs acc) cs"
  using scan_string_shorter [of cs acc] scan_string_no_recursion [of cs acc]
  by (cases "scan_string cs acc") (auto simp: consumes_def)

lemma parse_number_Nil: "parse_number pf [] = None"
  by (simp add: parse_number_def)

lemma parse_atom_consumes: "consumes (parse_atom pf s) s"
proof -
  let ?a = "takeWhile (\<lambda>c. \<not> atom_end c) s"
  let ?r = "dropWhile (\<lambda>c. \<not> atom_end c) s"
  have len: "length ?r < length s" if "?a \<noteq> []"
  proof -
    have "length ?a + length ?r = length s"
      using takeWhile_dropWhile_id [of "\<lambda>c. \<not> atom_end c" s]
      by (metis length_append)
    with that show ?thesis by (cases ?a) auto
  qed
  show ?thesis
  proof (cases "?a = []")
    case True
    then show ?thesis
      by (simp add: parse_atom_def Let_def parse_number_Nil consumes_def)
  next
    case False
    from len [OF False] show ?thesis
      by (auto simp: parse_atom_def Let_def consumes_def split: option.splits)
  qed
qed

lemma parse_consumes:
  "(\<forall>s. 2 * length s < n \<longrightarrow> consumes (parse_value pf n s) s) \<and>
   (\<forall>s acc. 2 * length s + 1 < n \<longrightarrow> consumes (parse_members pf n s acc) s) \<and>
   (\<forall>s acc. 2 * length s + 1 < n \<longrightarrow> consumes (parse_elements pf n s acc) s)"
proof (induction n)
  case 0
  then show ?case by simp
next
  case (Suc n)
  then have IHv: "\<And>s. 2 * length s < n \<Longrightarrow> consumes (parse_value pf n s) s"
    and IHm: "\<And>s acc. 2 * length s + 1 < n \<Longrightarrow> consumes (parse_members pf n s acc) s"
    and IHe: "\<And>s acc. 2 * length s + 1 < n \<Longrightarrow> consumes (parse_elements pf n s acc) s"
    by blast+
  have ws: "length (dropWhile json_ws t) \<le> length t" for t
    by (rule length_dropWhile_le)
  have v: "consumes (parse_value pf (Suc n) s) s" if fuel: "2 * length s < Suc n" for s
  proof (cases s)
    case Nil
    then show ?thesis by (simp add: consumes_Inl)
  next
    case (Cons c cs)
    consider (obj) "c = CHR ''{''" | (arr) "c = CHR ''[''" | (str) "c = CHR 0x22"
      | (atom) "c \<noteq> CHR ''{''" "c \<noteq> CHR ''[''" "c \<noteq> CHR 0x22"
      by blast
    then show ?thesis
    proof cases
      case obj
      show ?thesis
      proof (cases "dropWhile json_ws cs")
        case dn: Nil
        show ?thesis by (simp add: dn Cons obj consumes_Inl)
      next
        case xr: (Cons x r)
        with ws [of cs] have len: "length (x # r) \<le> length cs" by simp
        show ?thesis
        proof (cases "x = CHR ''}''")
          case True
          with len show ?thesis by (simp add: Cons obj xr consumes_Inr)
        next
          case False
          from len fuel Cons have "2 * length (x # r) + 1 < n" by simp
          then have "consumes (parse_members pf n (x # r) []) (x # r)" by (rule IHm)
          with len False show ?thesis
            by (auto simp: Cons obj xr consumes_def split: sum.splits)
        qed
      qed
    next
      case arr
      show ?thesis
      proof (cases "dropWhile json_ws cs")
        case dn: Nil
        show ?thesis by (simp add: dn Cons arr consumes_Inl)
      next
        case xr: (Cons x r)
        with ws [of cs] have len: "length (x # r) \<le> length cs" by simp
        show ?thesis
        proof (cases "x = CHR '']''")
          case True
          with len show ?thesis by (simp add: Cons arr xr consumes_Inr)
        next
          case False
          from len fuel Cons have "2 * length (x # r) + 1 < n" by simp
          then have "consumes (parse_elements pf n (x # r) []) (x # r)" by (rule IHe)
          with len False show ?thesis
            by (auto simp: Cons arr xr consumes_def split: sum.splits)
        qed
      qed
    next
      case str
      with scan_string_consumes [of cs "[]"] show ?thesis
        by (auto simp: Cons consumes_def split: sum.splits)
    next
      case atom
      with parse_atom_consumes [of pf "c # cs"] show ?thesis
        by (simp add: Cons)
    qed
  qed
  have m: "consumes (parse_members pf (Suc n) s acc) s" if fuel: "2 * length s + 1 < Suc n" for s acc
  proof (cases s)
    case Nil
    then show ?thesis by (simp add: consumes_Inl)
  next
    case (Cons q cs)
    show ?thesis
    proof (cases "q = CHR 0x22")
      case False
      then show ?thesis by (simp add: Cons consumes_Inl)
    next
      case True
      show ?thesis
      proof (cases "scan_string cs []")
        case (Inl e)
        with scan_string_no_recursion [of cs "[]"] show ?thesis
          by (simp add: Cons True consumes_Inl)
      next
        case (Inr kr)
        obtain k r1 where kr: "kr = (k, r1)" by (cases kr)
        with Inr scan_string_shorter have r1: "length r1 < length cs" by blast
        show ?thesis
        proof (cases "dropWhile json_ws r1")
          case dn: Nil
          show ?thesis by (simp add: dn Cons True Inr kr consumes_Inl)
        next
          case c2: (Cons col r2)
          with ws [of r1] r1 have r2: "length r2 < length cs" by simp
          show ?thesis
          proof (cases "col = CHR '':''")
            case False
            then show ?thesis by (simp add: Cons True Inr kr c2 consumes_Inl)
          next
            case col: True
            let ?t = "dropWhile json_ws r2"
            from ws [of r2] r2 have t: "length ?t < length cs" by simp
            with fuel Cons have "2 * length ?t < n" by simp
            then have cv: "consumes (parse_value pf n ?t) ?t" by (rule IHv)
            show ?thesis
            proof (cases "parse_value pf n ?t")
              case (Inl e)
              with cv show ?thesis
                by (simp add: Cons True Inr kr c2 col consumes_def)
            next
              case vr: (Inr vr3)
              obtain v r3 where vr3: "vr3 = (v, r3)" by (cases vr3)
              with cv vr t have r3: "length r3 < length cs" by (simp add: consumes_def)
              show ?thesis
              proof (cases "dropWhile json_ws r3")
                case dn: Nil
                show ?thesis by (simp add: dn Cons True Inr kr c2 col vr vr3 consumes_Inl)
              next
                case c4: (Cons d r4)
                with ws [of r3] r3 have r4: "length r4 < length cs" by simp
                let ?u = "dropWhile json_ws r4"
                from ws [of r4] r4 have u: "length ?u < length cs" by simp
                with fuel \<open>s = q # cs\<close> have "2 * length ?u + 1 < n" by simp
                then have "consumes (parse_members pf n ?u (AList.update k v acc)) ?u"
                  by (rule IHm)
                with u have "consumes (parse_members pf n ?u (AList.update k v acc)) s"
                  by (auto intro: consumes_longer simp: \<open>s = q # cs\<close>)
                with r4 show ?thesis
                  by (simp add: \<open>s = q # cs\<close> True Inr kr c2 col vr vr3 c4 consumes_Inl consumes_Inr)
              qed
            qed
          qed
        qed
      qed
    qed
  qed
  have e: "consumes (parse_elements pf (Suc n) s acc) s" if fuel: "2 * length s + 1 < Suc n" for s acc
  proof -
    from fuel have "2 * length s < n" by simp
    then have cv: "consumes (parse_value pf n s) s" by (rule IHv)
    show ?thesis
    proof (cases "parse_value pf n s")
      case (Inl e)
      with cv show ?thesis by (simp add: consumes_def)
    next
      case vr: (Inr vr1)
      obtain v r1 where vr1: "vr1 = (v, r1)" by (cases vr1)
      with cv vr have r1: "length r1 < length s" by (simp add: consumes_def)
      show ?thesis
      proof (cases "dropWhile json_ws r1")
        case dn: Nil
        show ?thesis by (simp add: dn vr vr1 consumes_Inl)
      next
        case (Cons d r2)
        with ws [of r1] r1 have r2: "Suc (length r2) < length s" by simp
        let ?u = "dropWhile json_ws r2"
        from ws [of r2] r2 have u: "Suc (length ?u) < length s" by simp
        with fuel have "2 * length ?u + 1 < n" by simp
        then have "consumes (parse_elements pf n ?u (acc @ [v])) ?u"
          by (rule IHe)
        with u have "consumes (parse_elements pf n ?u (acc @ [v])) s"
          by (auto intro: consumes_longer)
        with r2 show ?thesis
          by (simp add: vr vr1 Cons consumes_Inl consumes_Inr)
      qed
    qed
  qed
  from v m e show ?case by blast
qed

lemma json_loads_no_recursion: "json_loads pf s \<noteq> Inl RecursionError"
proof -
  let ?t = "dropWhile json_ws s"
  have "2 * length ?t < Suc (2 * length s)"
    using length_dropWhile_le [of json_ws s] by simp
  then have "consumes (parse_value pf (Suc (2 * length s)) ?t) ?t"
    using parse_consumes [of "Suc (2 * length s)" pf] by blast
  then show ?thesis
    by (auto simp: json_loads_def consumes_def split: sum.splits prod.splits)
qed

section \<open>Properties of \<^verbatim>\<open>extract_json\<close>\<close>

subsection \<open>The loop finds the first return of the depth to zero\<close>

lemma find_map_Suc: "List.find P (map f xs) = map_option f (List.find (\<lambda>x. P (f x)) xs)"
  by (induction xs) simp_all

lemma upt_1_Suc_Suc: "[Suc 0..<Suc (Suc n)] = Suc 0 # map Suc [Suc 0..<Suc n]"
  by (simp add: upt_conv_Cons map_Suc_upt del: upt_Suc)

lemma find_SomeD: "List.find P xs = Some x \<Longrightarrow> x \<in> set xs \<and> P x"
  by (induction xs) (auto split: if_splits)

lemma brace_depth_Nil: "brace_depth [] = 0"
  by (simp add: brace_depth_def)

lemma brace_depth_Cons: "brace_depth (c # cs) = brace_step c + brace_depth cs"
  by (simp add: brace_depth_def)

lemma find_shift:
  "List.find (\<lambda>n. d + brace_depth (take n (c # cs)) = 0) [Suc 0..<Suc (Suc (length cs))] =
     (if d + brace_step c = 0 then Some (Suc 0)
      else map_option Suc
             (List.find (\<lambda>n. d + brace_step c + brace_depth (take n cs) = 0)
                [Suc 0..<Suc (length cs)]))"
  unfolding upt_1_Suc_Suc
  by (simp add: find_map_Suc brace_depth_Cons brace_depth_Nil add.assoc
        del: brace_step.simps upt_Suc)

lemma scan_first_return:
  "1 \<le> d \<Longrightarrow> scan cs d i =
     map_option (\<lambda>n. i + n - 1)
       (List.find (\<lambda>n. d + brace_depth (take n cs) = 0) [Suc 0..<Suc (length cs)])"
proof (induction cs arbitrary: d i)
  case Nil
  then show ?case by simp
next
  case (Cons c cs)
  let ?d = "d + brace_step c"
  show ?case
  proof (cases "?d = 0")
    case True
    with Cons.prems have "c = CHR ''}''" "d = 1"
      by (auto split: if_splits)
    then show ?thesis
      by (simp add: find_shift del: upt_Suc)
  next
    case False
    with Cons.prems have pos: "1 \<le> ?d"
      by (auto split: if_splits)
    have "scan (c # cs) d i = scan cs ?d (i + 1)"
      using False by auto
    also have "\<dots> = map_option (\<lambda>n. i + 1 + n - 1)
        (List.find (\<lambda>n. ?d + brace_depth (take n cs) = 0) [Suc 0..<Suc (length cs)])"
      by (rule Cons.IH [OF pos])
    also have "\<dots> = map_option (\<lambda>n. i + n - 1)
        (List.find (\<lambda>n. d + brace_depth (take n (c # cs)) = 0) [Suc 0..<Suc (length (c # cs))])"
      using False
      by (simp add: find_shift option.map_comp comp_def del: upt_Suc brace_step.simps)
    finally show ?thesis .
  qed
qed

lemma find_char_takeWhile:
  "find_char c s i =
     (if c \<in> set s then Some (i + length (takeWhile (\<lambda>x. x \<noteq> c) s)) else None)"
  by (induction s arbitrary: i) auto

lemma first_return_pos: "first_return s = Some n \<Longrightarrow> 1 \<le> n \<and> n \<le> length s"
  by (auto simp: first_return_def dest!: find_SomeD simp del: upt_Suc)

lemma extract_json_char:
  "extract_json loads text =
     (let t = strip_fences text; s = dropWhile (\<lambda>c. c \<noteq> CHR ''{'') t
      in if CHR ''{'' \<notin> set t then Inl (ValueError ''No JSON detected in LLM response'')
         else case first_return s of
                None \<Rightarrow> Inl (ValueError ''Could not match complete JSON'')
              | Some n \<Rightarrow> loads (take n s))"
proof -
  define t where "t = strip_fences text"
  define s where "s = dropWhile (\<lambda>c. c \<noteq> CHR ''{'') t"
  define start where "start = length (takeWhile (\<lambda>c. c \<noteq> CHR ''{'') t)"
  have s_drop: "s = drop start t"
    by (simp add: s_def start_def dropWhile_eq_drop)
  show ?thesis
  proof (cases "CHR ''{'' \<in> set t")
    case False
    then show ?thesis
      by (simp add: extract_json_def find_char_takeWhile t_def [symmetric])
  next
    case True
    then have "s \<noteq> []" "hd s = CHR ''{''"
      using hd_dropWhile [of "\<lambda>c. c \<noteq> CHR ''{''" t] by (auto simp: s_def)
    then obtain r where s: "s = CHR ''{'' # r"
      by (cases s) auto
    have "scan s 0 start = scan r 1 (start + 1)"
      by (simp add: s)
    also have "\<dots> = map_option (\<lambda>n. start + 1 + n - 1)
        (List.find (\<lambda>n. 1 + brace_depth (take n r) = 0) [Suc 0..<Suc (length r)])"
      by (rule scan_first_return) simp
    also have "\<dots> = map_option (\<lambda>n. start + n - 1) (first_return s)"
      using find_shift [of 0 "CHR ''{''" r]
      by (simp add: first_return_def s option.map_comp comp_def del: upt_Suc)
    finally have sc: "scan (drop start t) 0 start = map_option (\<lambda>n. start + n - 1) (first_return s)"
      by (simp add: s_drop)
    show ?thesis
    proof (cases "first_return s")
      case None
      with True sc show ?thesis
        by (simp add: extract_json_def find_char_takeWhile t_def [symmetric]
              start_def [symmetric] s_def [symmetric])
    next
      case (Some n)
      then have "1 \<le> n" using first_return_pos [of s n] by simp
      then have "slice start (start + n - 1 + 1) t = take n s"
        by (simp add: slice_def s_drop)
      with True sc Some show ?thesis
        by (simp add: extract_json_def find_char_takeWhile t_def [symmetric]
              start_def [symmetric] s_def [symmetric])
    qed
  qed
qed

lemma find_append_first: "List.find P xs = Some x \<Longrightarrow> List.find P (xs @ ys) = Some x"
  by (induction xs) (auto split: if_splits)

lemma find_cong_set: "(\<And>x. x \<in> set xs \<Longrightarrow> P x = Q x) \<Longrightarrow> List.find P xs = List.find Q xs"
  by (induction xs) auto

lemma first_return_append:
  assumes "first_return cand = Some (length cand)"
  shows "first_return (cand @ post) = Some (length cand)"
proof -
  have split: "[1..<Suc (length (cand @ post))] =
      [1..<Suc (length cand)] @ [Suc (length cand)..<Suc (length cand + length post)]"
    using upt_add_eq_append [of 1 "Suc (length cand)" "length post"] first_return_pos [OF assms]
    by simp
  have "List.find (\<lambda>n. brace_depth (take n (cand @ post)) = 0) [1..<Suc (length cand)] =
        List.find (\<lambda>n. brace_depth (take n cand) = 0) [1..<Suc (length cand)]"
    by (rule find_cong_set) auto
  then have "List.find (\<lambda>n. brace_depth (take n (cand @ post)) = 0) [1..<Suc (length cand)] =
        Some (length cand)"
    using assms by (simp add: first_return_def)
  then show ?thesis
    unfolding first_return_def split by (rule find_append_first)
qed

text \<open>
  Claim C2. When the text, trimmed and freed of its fences, is \<open>pre @ cand @ post\<close>, where
  \<open>pre\<close> has no opening brace, \<open>cand\<close> begins with one and the depth of \<open>cand\<close> returns
  to zero at its last character and not before, then \<^verbatim>\<open>extract_json\<close> answers what the
  decoder answers on \<open>cand\<close>. Neither the prose \<open>pre\<close> nor whatever follows in \<open>post\<close>,
  further objects included, has any influence.
\<close>

theorem extract_json_first_object:
  assumes "strip_fences text = pre @ cand @ post"
    and "CHR ''{'' \<notin> set pre"
    and "cand = CHR ''{'' # r"
    and "first_return cand = Some (length cand)"
  shows "extract_json loads text = loads cand"
proof -
  have drop: "dropWhile (\<lambda>c. c \<noteq> CHR ''{'') (strip_fences text) = cand @ post"
    using assms(1-3) by (auto simp: dropWhile_append3)
  have "first_return (cand @ post) = Some (length cand)"
    using assms(4) by (rule first_return_append)
  moreover have "CHR ''{'' \<in> set (strip_fences text)"
    using assms(1,3) by simp
  ultimately show ?thesis
    unfolding extract_json_char Let_def drop by simp
qed

theorem extract_json_first_object_witness:
  "extract_json (json_loads (\<lambda>x. x))
     ''```JSON\<newline>Sure! Here is the result:\<newline>{\"a\":{\"b\":1}}\<newline>Hope that helps. {\"c\":2}\<newline>```'' =
   Inr (JDict [(''a'', JDict [(''b'', JInt 1)])])"
proof -
  have 1: "strip_fences
      ''```JSON\<newline>Sure! Here is the result:\<newline>{\"a\":{\"b\":1}}\<newline>Hope that helps. {\"c\":2}\<newline>```'' =
      ''Sure! Here is the result:\<newline>'' @ ''{\"a\":{\"b\":1}}'' @ ''\<newline>Hope that helps. {\"c\":2}''"
    by code_simp
  have 2: "CHR ''{'' \<notin> set ''Sure! Here is the result:\<newline>''"
    by simp
  have 3: "''{\"a\":{\"b\":1}}'' = CHR ''{'' # ''\"a\":{\"b\":1}}''"
    by simp
  have 4: "first_return ''{\"a\":{\"b\":1}}'' = Some (length ''{\"a\":{\"b\":1}}'')"
    by code_simp
  have 5: "json_loads (\<lambda>x. x) ''{\"a\":{\"b\":1}}'' = Inr (JDict [(''a'', JDict [(''b'', JInt 1)])])"
    by code_simp
  show ?thesis
    using extract_json_first_object [OF 1 2 3 4, of "json_loads (\<lambda>x. x)"] 5 by simp
qed

text \<open>
  Claim C3. \<^verbatim>\<open>extract_json\<close> raises \<open>e\<close> exactly when, after trimming and fence
  stripping, the text has no opening brace and \<open>e\<close> is the error for no JSON, or the depth
  never returns to zero from the first opening brace on and \<open>e\<close> is the error for an
  incomplete block, or the candidate up to the first return does not decode and \<open>e\<close> is
  the decoder's own exception. The two messages are the ones of the source; the
  specification names them "no JSON detected" and "incomplete JSON block".
\<close>

theorem extract_json_raises_iff:
  "extract_json loads text = Inl e \<longleftrightarrow>
     (let t = strip_fences text; s = dropWhile (\<lambda>c. c \<noteq> CHR ''{'') t
      in (CHR ''{'' \<notin> set t \<and> e = ValueError ''No JSON detected in LLM response'') \<or>
         (CHR ''{'' \<in> set t \<and> first_return s = None \<and>
            e = ValueError ''Could not match complete JSON'') \<or>
         (\<exists>n. CHR ''{'' \<in> set t \<and> first_return s = Some n \<and> loads (take n s) = Inl e))"
  by (auto simp: extract_json_char Let_def split: option.splits)

theorem extract_json_raises_iff_witness:
  "extract_json (json_loads (\<lambda>x. x)) ''no json here'' =
     Inl (ValueError ''No JSON detected in LLM response'') \<and>
   extract_json (json_loads (\<lambda>x. x)) ''{\"a\":1'' =
     Inl (ValueError ''Could not match complete JSON'') \<and>
   extract_json (json_loads (\<lambda>x. x)) ''{\"a\":}'' =
     Inl (JSONDecodeError ''Expecting value'')"
proof -
  have 1: "strip_fences ''no json here'' = ''no json here''" by code_simp
  have 2: "strip_fences ''{\"a\":1'' = ''{\"a\":1''" by code_simp
  have 3: "strip_fences ''{\"a\":}'' = ''{\"a\":}''" by code_simp
  have 4: "first_return ''{\"a\":1'' = None" by code_simp
  have 5: "first_return ''{\"a\":}'' = Some 6" by code_simp
  have 6: "json_loads (\<lambda>x. x) ''{\"a\":}'' = Inl (JSONDecodeError ''Expecting value'')"
    by code_simp
  have a: "extract_json (json_loads (\<lambda>x. x)) ''no json here'' =
     Inl (ValueError ''No JSON detected in LLM response'')"
    unfolding extract_json_raises_iff Let_def 1 by simp
  have b: "extract_json (json_loads (\<lambda>x. x)) ''{\"a\":1'' =
     Inl (ValueError ''Could not match complete JSON'')"
    unfolding extract_json_raises_iff Let_def 2 using 4 by simp
  have c: "extract_json (json_loads (\<lambda>x. x)) ''{\"a\":}'' =
     Inl (JSONDecodeError ''Expecting value'')"
    unfolding extract_json_raises_iff Let_def 3 using 5 6 by simp
  from a b c show ?thesis by simp
qed

lemma parse_value_object:
  "parse_value pf (Suc n) (CHR ''{'' # r) = Inr (v, rest) \<Longrightarrow> is_dict v"
  by (cases "dropWhile json_ws r")
     (auto split: if_splits sum.splits prod.splits)

lemma json_loads_object: "json_loads pf (CHR ''{'' # r) = Inr v \<Longrightarrow> is_dict v"
proof -
  assume a: "json_loads pf (CHR ''{'' # r) = Inr v"
  have ws: "dropWhile json_ws (CHR ''{'' # r) = CHR ''{'' # r"
    by (simp add: json_ws_def)
  from a obtain rest where
    "parse_value pf (Suc (2 * length (CHR ''{'' # r))) (CHR ''{'' # r) = Inr (v, rest)"
    unfolding json_loads_def ws by (auto split: sum.splits prod.splits if_splits)
  then show ?thesis by (rule parse_value_object)
qed

text \<open>
  Claim C10. The text handed to the decoder begins with an opening brace. So for a decoder
  that answers nothing but an object on such a text, as \<^verbatim>\<open>json.loads\<close> does, whatever
  \<^verbatim>\<open>extract_json\<close> returns is a dict, and the three \<^verbatim>\<open>setdefault\<close> calls of the handler
  apply to it.
\<close>

theorem extract_json_returns_object:
  assumes "\<forall>r v. loads (CHR ''{'' # r) = Inr v \<longrightarrow> is_dict v"
    and "extract_json loads text = Inr v"
  shows "(\<exists>r. loads (CHR ''{'' # r) = Inr v) \<and> is_dict v \<and>
         (\<exists>p. fill_defaults v code = Inr p)"
proof -
  define s where "s = dropWhile (\<lambda>c. c \<noteq> CHR ''{'') (strip_fences text)"
  from assms(2) obtain n where in_t: "CHR ''{'' \<in> set (strip_fences text)"
    and fr: "first_return s = Some n" and ld: "loads (take n s) = Inr v"
    by (auto simp: extract_json_char Let_def s_def split: option.splits if_splits)
  from in_t have "s \<noteq> []" "hd s = CHR ''{''"
    using hd_dropWhile [of "\<lambda>c. c \<noteq> CHR ''{''" "strip_fences text"] by (auto simp: s_def)
  moreover have "1 \<le> n" using first_return_pos [OF fr] by simp
  ultimately obtain r where "take n s = CHR ''{'' # r"
    by (cases s; cases n) auto
  with ld have 1: "loads (CHR ''{'' # r) = Inr v" by simp
  with assms(1) have "is_dict v" by blast
  then obtain p where 2: "v = JDict p" by (cases v) auto
  have "\<exists>p. fill_defaults v code = Inr p"
    by (simp add: 2 fill_defaults_def)
  moreover from 1 have "\<exists>r. loads (CHR ''{'' # r) = Inr v" by blast
  ultimately show ?thesis using \<open>is_dict v\<close> by simp
qed

theorem extract_json_returns_object_witness:
  "(\<exists>r. json_loads (\<lambda>x. x) (CHR ''{'' # r) = Inr (JDict [(''a'', JInt 1)])) \<and>
   is_dict (JDict [(''a'', JInt 1)] :: string json) \<and>
   (\<exists>p. fill_defaults (JDict [(''a'', JInt 1)] :: string json) ''x = 1'' = Inr p)"
proof -
  have 1: "\<forall>r v. json_loads (\<lambda>x. x) (CHR ''{'' # r) = Inr v \<longrightarrow> is_dict v"
    using json_loads_object by blast
  have 2: "extract_json (json_loads (\<lambda>x. x)) ''Result: {\"a\":1}'' = Inr (JDict [(''a'', JInt 1)])"
    by code_simp
  show ?thesis
    by (rule extract_json_returns_object [OF 1 2])
qed

section \<open>Properties of \<^verbatim>\<open>normalize_suggestions\<close>\<close>



lemma suggestions_loop_append:
  "suggestions_loop py_str i xs acc =
     acc @ map (\<lambda>k. suggestion_entry py_str (i + k) (xs ! k)) [0..<length xs]"
proof (induction xs arbitrary: i acc)
  case Nil
  then show ?case by simp
next
  case (Cons x xs)
  have upt: "[0..<length (x # xs)] = 0 # map Suc [0..<length xs]"
    by (simp add: upt_conv_Cons map_Suc_upt del: upt_Suc)
  have "map (\<lambda>k. suggestion_entry py_str (i + k) ((x # xs) ! k)) [0..<length (x # xs)] =
        suggestion_entry py_str i x #
        map (\<lambda>k. suggestion_entry py_str (Suc i + k) (xs ! k)) [0..<length xs]"
    unfolding upt by (simp add: comp_def)
  with Cons.IH [of "i + 1" "acc @ [suggestion_entry py_str i x]"] show ?case
    by simp
qed



text \<open>
  Claim C6. On a list, \<^verbatim>\<open>normalize_suggestions\<close> returns a list of the same length, and
  the entry at each index is the one made from the input element at that index: nothing
  is dropped and the order is kept.
\<close>

theorem normalize_suggestions_length_order: "\<exists>ys. normalize_suggestions py_str (JList xs) = Inr (JList ys) \<and>
     length ys = length xs \<and>
     (\<forall>i < length xs. ys ! i = suggestion_entry py_str i (xs ! i))"
  by (simp add: normalize_suggestions_def suggestions_loop_append)

theorem normalize_suggestions_length_order_witness:
  "\<exists>ys. normalize_suggestions (\<lambda>v. ''3'') (JList [JStr ''fix bug'', JInt 3 :: unit json]) =
          Inr (JList ys) \<and>
     length ys = 2 \<and>
     ys ! 0 = suggestion_entry (\<lambda>v. ''3'') 0 (JStr ''fix bug'') \<and>
     ys ! 1 = suggestion_entry (\<lambda>v. ''3'') 1 (JInt 3)"
proof -
  let ?xs = "[JStr ''fix bug'', JInt 3] :: unit json list"
  from normalize_suggestions_length_order [of "\<lambda>v. ''3''" ?xs]
  obtain ys where a: "normalize_suggestions (\<lambda>v. ''3'') (JList ?xs) = Inr (JList ys)"
    and b: "length ys = length ?xs"
    and c: "\<forall>i < length ?xs. ys ! i = suggestion_entry (\<lambda>v. ''3'') i (?xs ! i)"
    by blast
  from c have "ys ! 0 = suggestion_entry (\<lambda>v. ''3'') 0 (?xs ! 0)"
    "ys ! 1 = suggestion_entry (\<lambda>v. ''3'') 1 (?xs ! 1)"
    by simp_all
  with a b show ?thesis by simp
qed

section \<open>Properties of \<^verbatim>\<open>normalize_metrics\<close>\<close>




section \<open>Extraction of a canonical encoding\<close>

declare brace_step.simps [simp del]

lemma brace_depth_append: "brace_depth (s @ t) = brace_depth s + brace_depth t"
  by (simp add: brace_depth_def)

lemma depth_nonneg_append:
  "depth_nonneg d (s @ t) = (depth_nonneg d s \<and> depth_nonneg (d + brace_depth s) t)"
  by (induction s arbitrary: d) (auto simp: brace_depth_Nil brace_depth_Cons add.assoc)

lemma depth_nonneg_mono: "depth_nonneg d s \<Longrightarrow> d \<le> e \<Longrightarrow> depth_nonneg e s"
proof (induction s arbitrary: d e)
  case Nil
  then show ?case by simp
next
  case (Cons c s)
  from Cons.prems have "depth_nonneg (d + brace_step c) s" "0 \<le> e + brace_step c" by auto
  moreover from Cons.prems have "d + brace_step c \<le> e + brace_step c" by simp
  ultimately show ?case using Cons.IH by auto
qed

lemma brace_free_depth: "brace_free s \<Longrightarrow> brace_depth s = 0"
  by (induction s) (auto simp: brace_free_def brace_depth_Nil brace_depth_Cons brace_step.simps)

lemma brace_free_nonneg: "brace_free s \<Longrightarrow> 0 \<le> d \<Longrightarrow> depth_nonneg d s"
  by (induction s) (auto simp: brace_free_def brace_step.simps)

lemma brace_free_nested: "brace_free s \<Longrightarrow> braces_nested s"
  by (simp add: braces_nested_def brace_free_depth brace_free_nonneg)

lemma braces_nested_append: "braces_nested s \<Longrightarrow> braces_nested t \<Longrightarrow> braces_nested (s @ t)"
  by (simp add: braces_nested_def depth_nonneg_append brace_depth_append)

lemma braces_nested_wrap:
  "braces_nested s \<Longrightarrow> braces_nested (CHR ''{'' # s @ ''}'')"
  by (auto simp: braces_nested_def depth_nonneg_append brace_depth_append brace_depth_Cons
        brace_depth_Nil brace_step.simps intro: depth_nonneg_mono)

lemma hex_char_brace_free: "n < 16 \<Longrightarrow> brace_free [hex_char n]"
proof -
  assume "n < 16"
  then have "hex_char n \<in> set ''0123456789abcdef''"
    unfolding hex_char_def by (intro nth_mem) simp
  then show ?thesis by (auto simp: brace_free_def)
qed

lemma escape_char_brace: "c = CHR ''{'' \<or> c = CHR ''}'' \<Longrightarrow> escape_char c = [c]"
  by (auto simp: escape_char_def)

lemma escape_char_other:
  assumes "c \<noteq> CHR ''{''" "c \<noteq> CHR ''}''"
  shows "brace_free (escape_char c)"
proof -
  have "(of_char c :: nat) < 256" by simp
  then have "(of_char c :: nat) div 16 < 16" "(of_char c :: nat) mod 16 < 16"
    by (simp_all add: less_mult_imp_div_less)
  then have "brace_free [hex_char ((of_char c :: nat) div 16)]"
    "brace_free [hex_char ((of_char c :: nat) mod 16)]"
    by (auto intro: hex_char_brace_free)
  with assms show ?thesis
    by (auto simp: escape_char_def brace_free_def)
qed

lemma escape_char_depth: "brace_depth (escape_char c) = brace_step c"
proof (cases "c = CHR ''{'' \<or> c = CHR ''}''")
  case True
  then show ?thesis by (auto simp: escape_char_brace brace_depth_Cons brace_depth_Nil)
next
  case False
  then show ?thesis
    using escape_char_other [of c] by (auto simp: brace_free_depth brace_step.simps)
qed

lemma escape_char_nonneg:
  "0 \<le> d \<Longrightarrow> depth_nonneg d (escape_char c) = (0 \<le> d + brace_step c)"
proof (cases "c = CHR ''{'' \<or> c = CHR ''}''")
  case True
  then show ?thesis by (auto simp: escape_char_brace)
next
  case False
  assume "0 \<le> d"
  with False show ?thesis
    using escape_char_other [of c] by (auto simp: brace_free_nonneg brace_step.simps)
qed

lemma escaped_depth: "brace_depth (concat (map escape_char s)) = brace_depth s"
  by (induction s) (simp_all add: brace_depth_Nil brace_depth_Cons brace_depth_append escape_char_depth)

lemma escaped_nonneg:
  "0 \<le> d \<Longrightarrow> depth_nonneg d (concat (map escape_char s)) = depth_nonneg d s"
  by (induction s arbitrary: d)
     (auto simp: depth_nonneg_append escape_char_nonneg escape_char_depth)

lemma encode_string_nested: "braces_nested s \<Longrightarrow> braces_nested (encode_string s)"
  by (auto simp: braces_nested_def encode_string_def depth_nonneg_append brace_depth_append
        brace_depth_Cons brace_depth_Nil brace_step.simps escaped_depth escaped_nonneg)

lemma str_nat_brace_free: "brace_free (str_nat n)"
proof (induction n rule: str_nat.induct)
  case (1 n)
  have d: "k < 10 \<Longrightarrow> ''0123456789'' ! k \<in> set ''0123456789''" for k
    by (intro nth_mem) simp
  show ?case
  proof (cases "n < 10")
    case True
    with d [of n] show ?thesis
      by (subst str_nat.simps) (auto simp: brace_free_def)
  next
    case False
    with "1.IH" d [of "n mod 10"] show ?thesis
      by (subst str_nat.simps) (auto simp: brace_free_def)
  qed
qed

lemma str_int_brace_free: "brace_free (str_int n)"
  using str_nat_brace_free [of "nat n"] str_nat_brace_free [of "nat (- n)"]
  by (auto simp: str_int_def brace_free_def)

lemma join_nested:
  "braces_nested sep \<Longrightarrow> list_all braces_nested xs \<Longrightarrow> braces_nested (join sep xs)"
  by (induction sep xs rule: join.induct)
     (auto simp: braces_nested_append brace_free_nested brace_free_def)

lemma json_dumps_nested:
  assumes rf: "\<And>x. brace_free (repr_float x)"
  shows "strings_nested v \<Longrightarrow> braces_nested (json_dumps repr_float v)"
proof (induction v)
  case JNull
  then show ?case by (simp add: brace_free_nested brace_free_def)
next
  case (JBool b)
  then show ?case by (simp add: brace_free_nested brace_free_def)
next
  case (JInt n)
  then show ?case by (simp add: brace_free_nested str_int_brace_free)
next
  case (JFloat x)
  then show ?case by (simp add: brace_free_nested rf)
next
  case (JStr s)
  then show ?case by (simp add: encode_string_nested)
next
  case (JList xs)
  then have "list_all braces_nested (map (json_dumps repr_float) xs)"
    by (auto simp: list_all_iff)
  then have "braces_nested (join '', '' (map (json_dumps repr_float) xs))"
    by (intro join_nested) (simp_all add: brace_free_nested brace_free_def)
  then have "braces_nested (''['' @ join '', '' (map (json_dumps repr_float) xs) @ '']'')"
    by (intro braces_nested_append) (simp_all add: brace_free_nested brace_free_def)
  then show ?case by simp
next
  case (JDict d)
  have "list_all braces_nested
     (map (\<lambda>kv. encode_string (fst kv) @ '': '' @ json_dumps repr_float (snd kv)) d)"
    unfolding list_all_iff
  proof
    fix m assume "m \<in> set (map (\<lambda>kv. encode_string (fst kv) @ '': '' @ json_dumps repr_float (snd kv)) d)"
    then obtain kv where kv: "kv \<in> set d"
      and m: "m = encode_string (fst kv) @ '': '' @ json_dumps repr_float (snd kv)" by auto
    from kv JDict.prems have "braces_nested (fst kv)" "strings_nested (snd kv)"
      by (auto simp: list_all_iff)
    moreover have "snd kv \<in> Basic_BNFs.snds kv" by (cases kv) simp
    ultimately have "braces_nested (encode_string (fst kv))"
      "braces_nested (json_dumps repr_float (snd kv))"
      using JDict.IH [OF kv] by (auto simp: encode_string_nested)
    then show "braces_nested m"
      unfolding m by (intro braces_nested_append) (simp_all add: brace_free_nested brace_free_def)
  qed
  then have "braces_nested (join '', ''
     (map (\<lambda>kv. encode_string (fst kv) @ '': '' @ json_dumps repr_float (snd kv)) d))"
    by (intro join_nested) (simp_all add: brace_free_nested brace_free_def)
  then show ?case
    using braces_nested_wrap by simp
qed

lemma scan_skip:
  "1 \<le> d \<Longrightarrow> depth_nonneg (d - 1) s \<Longrightarrow>
   scan (s @ rest) d i = scan rest (d + brace_depth s) (i + length s)"
proof (induction s arbitrary: d i)
  case Nil
  then show ?case by (simp add: brace_depth_Nil)
next
  case (Cons c s)
  let ?d = "d + brace_step c"
  from Cons.prems have pos: "1 \<le> ?d" and rest: "depth_nonneg (?d - 1) s"
    by (simp_all add: algebra_simps)
  have "scan ((c # s) @ rest) d i = scan (s @ rest) ?d (i + 1)"
    using pos by (auto simp: brace_step.simps)
  also have "\<dots> = scan rest (?d + brace_depth s) (i + 1 + length s)"
    by (rule Cons.IH [OF pos rest])
  finally show ?case
    by (simp add: brace_depth_Cons add.assoc)
qed

lemma strip_unchanged:
  "s \<noteq> [] \<Longrightarrow> \<not> isspace (hd s) \<Longrightarrow> \<not> isspace (last s) \<Longrightarrow> strip s = s"
proof -
  assume a: "s \<noteq> []" "\<not> isspace (hd s)" "\<not> isspace (last s)"
  then have 1: "dropWhile isspace s = s" by (cases s) auto
  from a have "rev s \<noteq> []" "\<not> isspace (hd (rev s))" by (simp_all add: hd_rev)
  then have "dropWhile isspace (rev s) = rev s" by (cases "rev s") auto
  with 1 show ?thesis by (simp add: strip_def)
qed

lemma sub_close_fence_unchanged:
  assumes "s \<noteq> []" "last s = CHR ''}''"
  shows "sub_close_fence s = s"
proof -
  have a: "drop (length s - 3) s \<noteq> ''```''"
  proof
    assume e: "drop (length s - 3) s = ''```''"
    from assms(1) have "last (drop (length s - 3) s) = last s" by simp
    with e assms(2) show False by simp
  qed
  have b: "drop (length s - 4) s \<noteq> ''```\<newline>''"
  proof
    assume e: "drop (length s - 4) s = ''```\<newline>''"
    from assms(1) have "last (drop (length s - 4) s) = last s" by simp
    with e assms(2) show False by simp
  qed
  from a b show ?thesis by (simp add: sub_close_fence_def Let_def)
qed

lemma strip_fences_object:
  "strip_fences (CHR ''{'' # body @ ''}'') = CHR ''{'' # body @ ''}''"
proof -
  let ?s = "CHR ''{'' # body @ ''}''"
  have 1: "strip ?s = ?s" by (rule strip_unchanged) (simp_all add: isspace_def)
  have 2: "sub_open_fence ?s = ?s" by (simp add: sub_open_fence_def)
  have 3: "sub_close_fence ?s = ?s" by (rule sub_close_fence_unchanged) simp_all
  show ?thesis unfolding strip_fences_def 1 2 3 ..
qed

lemma extract_json_object_text:
  assumes "braces_nested body"
  shows "extract_json loads (CHR ''{'' # body @ ''}'') = loads (CHR ''{'' # body @ ''}'')"
proof -
  from assms have n: "depth_nonneg 0 body" and z: "brace_depth body = 0"
    by (simp_all add: braces_nested_def)
  have "scan (CHR ''{'' # body @ ''}'') 0 0 = scan (body @ ''}'') 1 1"
    by simp
  also have "\<dots> = scan ''}'' (1 + brace_depth body) (1 + length body)"
    by (rule scan_skip) (simp_all add: n)
  also have "\<dots> = Some (1 + length body)"
    by (simp add: z)
  finally have sc: "scan (CHR ''{'' # body @ ''}'') 0 0 = Some (1 + length body)" .
  show ?thesis
    unfolding extract_json_def strip_fences_object Let_def
    by (simp add: sc slice_def del: scan.simps)
qed

text \<open>
  Claim C4, with its hypothesis extended to keys and read as nesting. Let \<open>X\<close> be an
  object all of whose strings, keys as well as values at any depth, have their braces
  nested, and let floats print without braces. Then \<^verbatim>\<open>extract_json\<close> hands the whole
  canonical encoding of \<open>X\<close> to the decoder, so it returns \<open>X\<close> whenever the decoder
  does on that encoding.
\<close>

theorem extract_json_canonical_encoding:
  assumes "strings_nested (JDict d)"
    and "\<forall>x. brace_free (repr_float x)"
    and "loads (json_dumps repr_float (JDict d)) = Inr (JDict d)"
  shows "extract_json loads (json_dumps repr_float (JDict d)) = Inr (JDict d)"
proof -
  let ?body = "join '', ''
     (map (\<lambda>kv. encode_string (fst kv) @ '': '' @ json_dumps repr_float (snd kv)) d)"
  have enc: "json_dumps repr_float (JDict d) = CHR ''{'' # ?body @ ''}''"
    by simp
  have "list_all braces_nested
     (map (\<lambda>kv. encode_string (fst kv) @ '': '' @ json_dumps repr_float (snd kv)) d)"
    unfolding list_all_iff
  proof
    fix m assume "m \<in> set (map (\<lambda>kv. encode_string (fst kv) @ '': '' @ json_dumps repr_float (snd kv)) d)"
    then obtain kv where kv: "kv \<in> set d"
      and m: "m = encode_string (fst kv) @ '': '' @ json_dumps repr_float (snd kv)" by auto
    from kv assms(1) have "braces_nested (fst kv)" "strings_nested (snd kv)"
      by (auto simp: list_all_iff)
    then have "braces_nested (encode_string (fst kv))"
      "braces_nested (json_dumps repr_float (snd kv))"
      using assms(2) by (auto simp: encode_string_nested json_dumps_nested)
    then show "braces_nested m"
      unfolding m by (intro braces_nested_append) (simp_all add: brace_free_nested brace_free_def)
  qed
  then have "braces_nested ?body"
    by (intro join_nested) (simp_all add: brace_free_nested brace_free_def)
  then have "extract_json loads (CHR ''{'' # ?body @ ''}'') = loads (CHR ''{'' # ?body @ ''}'')"
    by (rule extract_json_object_text)
  with assms(3) show ?thesis
    unfolding enc by simp
qed

theorem extract_json_canonical_encoding_witness:
  "extract_json (json_loads (\<lambda>x. ()))
     (json_dumps (\<lambda>x. ''1.5'')
        (JDict [(''a{}'', JList [JStr ''x{y}'', JFloat (), JInt (- 3)]),
                (''b'', JDict [(''c'', JNull)])])) =
   Inr (JDict [(''a{}'', JList [JStr ''x{y}'', JFloat (), JInt (- 3)]),
               (''b'', JDict [(''c'', JNull)])])"
proof -
  let ?d = "[(''a{}'', JList [JStr ''x{y}'', JFloat (), JInt (- 3)]),
             (''b'', JDict [(''c'', JNull)])] :: (string \<times> unit json) list"
  have 1: "strings_nested (JDict ?d)"
    by code_simp
  have 2: "\<forall>x::unit. brace_free ((\<lambda>x. ''1.5'') x)"
    by (simp add: brace_free_def)
  have 3: "json_loads (\<lambda>x. ()) (json_dumps (\<lambda>x. ''1.5'') (JDict ?d)) = Inr (JDict ?d)"
    by code_simp
  show ?thesis
    by (rule extract_json_canonical_encoding [where repr_float = "\<lambda>x. ''1.5''" and loads = "json_loads (\<lambda>x. ())", OF 1 2 3])
qed

text \<open>
  Claim C4 as stated speaks of string values only. The object \<^verbatim>\<open>{"}": 1}\<close> has no string
  value at all and the decoder reads its encoding back, but the loop stops at the brace
  inside the key and the candidate \<^verbatim>\<open>{"}\<close> does not decode.
\<close>

theorem extract_json_brace_in_key_counterexample:
  "values_nested (JDict [(''}'', JInt 1)] :: string json) \<and>
   json_dumps (\<lambda>x. x) (JDict [(''}'', JInt 1)]) = ''{\"}\": 1}'' \<and>
   json_loads (\<lambda>x. x) ''{\"}\": 1}'' = Inr (JDict [(''}'', JInt 1)]) \<and>
   extract_json (json_loads (\<lambda>x. x)) ''{\"}\": 1}'' = Inl (JSONDecodeError ''Unterminated string'')"
  by code_simp

section \<open>Properties of the handler\<close>

lemma map_of_setdefault:
  "map_of (setdefault d k v) k' =
     (if k' = k then Some (dict_get d k v) else map_of d k')"
  by (auto simp: setdefault_def dict_get_def map_add_def split: option.splits)

lemma fill_defaults_optimized_code:
  "fill_defaults (JDict p) code = Inr p3 \<Longrightarrow>
   map_of p3 ''optimized_code'' = Some (dict_get p ''optimized_code'' (JStr code))"
  by (auto simp: fill_defaults_def Let_def map_of_setdefault)

lemma fill_and_normalize_optimized_code:
  assumes "fill_and_normalize py_str (JDict p) language code = Inr (body, status)"
  shows "\<exists>b. body = JDict b \<and> status = 200 \<and>
           map_of b ''optimized_code'' = Some (dict_get p ''optimized_code'' (JStr code))"
proof -
  obtain p3 where p3: "fill_defaults (JDict p) code = Inr p3"
    by (simp add: fill_defaults_def Let_def)
  from assms p3 obtain sugg met where
    "body = JDict (AList.update ''metrics'' met (AList.update ''suggestions'' sugg p3))"
    and "status = 200"
    by (auto simp: fill_and_normalize_def Let_def split: sum.splits)
  then show ?thesis
    using fill_defaults_optimized_code [OF p3] by (simp add: update_conv')
qed

text \<open>
  Claim C9. In a request that ends with status 200, when the object extracted from the
  model's text has no key \<^verbatim>\<open>optimized_code\<close>, the response carries the request's code
  under that key.
\<close>

theorem optimize_default_optimized_code:
  assumes "map_of d ''code'' = Some (JStr code)"
    and "call_ollama w (dict_get d ''language'' JNull) code = (Inr raw, w')"
    and "extract_json loads raw = Inr (JDict p)"
    and "map_of p ''optimized_code'' = None"
    and "optimize call_ollama loads py_str w (JDict d) = (Inr (body, 200), w'')"
  shows "\<exists>b. body = JDict b \<and> map_of b ''optimized_code'' = Some (JStr code)"
proof -
  from assms(1,2,3,5) have
    "fill_and_normalize py_str (JDict p) (dict_get d ''language'' JNull) code = Inr (body, 200)"
    by (simp add: optimize_def Let_def dict_get_def)
  from fill_and_normalize_optimized_code [OF this] assms(4) show ?thesis
    by (simp add: dict_get_def)
qed

theorem optimize_default_optimized_code_witness:
  "\<exists>b. JDict [(''suggestions'', JList []),
              (''optimized_code'', JStr ''int main(){}''),
              (''metrics'', JDict [(''language'', JStr ''c''), (''loc_before'', JInt 1),
                 (''loc_after'', JInt 1), (''reduction'', JInt 0),
                 (''redundant_removed'', JNull), (''security_improved'', JBool False)])]
          = (JDict b :: string json) \<and>
        map_of b ''optimized_code'' = Some (JStr ''int main(){}'')"
proof -
  let ?d = "[(''language'', JStr ''c''), (''code'', JStr ''int main(){}'')] :: (string \<times> string json) list"
  let ?call = "\<lambda>(w::unit) (l::string json) (c::string). (Inr ''{\"suggestions\": []}'' :: exc + string, w)"
  have 1: "map_of ?d ''code'' = Some (JStr ''int main(){}'')" by simp
  have 2: "?call () (dict_get ?d ''language'' JNull) ''int main(){}'' = (Inr ''{\"suggestions\": []}'', ())"
    by simp
  have 3: "extract_json (json_loads (\<lambda>x. x)) ''{\"suggestions\": []}'' = Inr (JDict [(''suggestions'', JList [])])"
    by code_simp
  have 4: "map_of [(''suggestions'', JList [] :: string json)] ''optimized_code'' = None" by simp
  have 5: "optimize ?call (json_loads (\<lambda>x. x)) (\<lambda>v. '''') () (JDict ?d) =
     (Inr (JDict [(''suggestions'', JList []),
              (''optimized_code'', JStr ''int main(){}''),
              (''metrics'', JDict [(''language'', JStr ''c''), (''loc_before'', JInt 1),
                 (''loc_after'', JInt 1), (''reduction'', JInt 0),
                 (''redundant_removed'', JNull), (''security_improved'', JBool False)])], 200), ())"
    unfolding optimize_def Let_def
    by (simp add: 3 dict_get_def fill_and_normalize_def fill_defaults_def setdefault_def
          normalize_suggestions_def normalize_metrics_def Let_def)
  show ?thesis
    by (rule optimize_default_optimized_code [OF 1 2 3 4 5])
qed

subsection \<open>The four ways through the handler\<close>

lemma optimize_bad_request:
  "\<not> is_str (dict_get d ''code'' JNull) \<Longrightarrow>
   optimize call_ollama loads py_str w (JDict d) =
     (Inr (error_body ''`code` must be a string'', 400), w)"
  by (simp add: optimize_def Let_def)

lemma optimize_call_fails:
  "dict_get d ''code'' JNull = JStr code \<Longrightarrow>
   call_ollama w (dict_get d ''language'' JNull) code = (Inl e, w') \<Longrightarrow>
   optimize call_ollama loads py_str w (JDict d) =
     (Inr (error_body (''LLM error: '' @ exc_str e), 500), w')"
  by (simp add: optimize_def Let_def)

lemma optimize_extract_fails:
  "dict_get d ''code'' JNull = JStr code \<Longrightarrow>
   call_ollama w (dict_get d ''language'' JNull) code = (Inr raw, w') \<Longrightarrow>
   extract_json loads raw = Inl e \<Longrightarrow>
   optimize call_ollama loads py_str w (JDict d) =
     (Inr (error_body (''LLM error: '' @ exc_str e), 500), w')"
  by (simp add: optimize_def Let_def)

lemma optimize_extracted:
  "dict_get d ''code'' JNull = JStr code \<Longrightarrow>
   call_ollama w (dict_get d ''language'' JNull) code = (Inr raw, w') \<Longrightarrow>
   extract_json loads raw = Inr parsed \<Longrightarrow>
   optimize call_ollama loads py_str w (JDict d) =
     (fill_and_normalize py_str parsed (dict_get d ''language'' JNull) code, w')"
  by (simp add: optimize_def Let_def)

lemma fill_and_normalize_well_typed:
  assumes "fill_defaults (JDict p) code = Inr p3"
    and "py_iter (dict_get p3 ''suggestions'' (JList [])) = Inr xs"
    and "is_dict (dict_get p3 ''metrics'' (JDict []))"
  shows "\<exists>b. fill_and_normalize py_str (JDict p) language code = Inr (JDict b, 200) \<and>
           {''optimized_code'', ''suggestions'', ''metrics''} \<subseteq> fst ` set b"
proof -
  obtain m where m: "dict_get p3 ''metrics'' (JDict []) = JDict m"
    using assms(3) by (cases "dict_get p3 ''metrics'' (JDict [])") auto
  from assms(1) have keys: "{''optimized_code'', ''suggestions'', ''metrics''} \<subseteq> fst ` set p3"
    by (auto simp: fill_defaults_def Let_def setdefault_def dest!: map_of_SomeD
          split: option.splits intro: rev_image_eqI)
  have "dict_get (AList.update ''suggestions'' s p3) ''metrics'' (JDict []) = JDict m" for s
    using m by (simp add: dict_get_def update_conv')
  then show ?thesis
    using assms(1,2) keys
    by (auto simp: fill_and_normalize_def normalize_suggestions_def normalize_metrics_def
          Let_def dom_update)
qed

text \<open>
  Claim C1 says that filling the defaults and normalizing never raises, whatever the
  fields of the extracted object are. The code raises when \<^verbatim>\<open>suggestions\<close> is not
  iterable and when \<^verbatim>\<open>metrics\<close> is not an object: the model's replies
  \<^verbatim>\<open>{"suggestions": 5}\<close> and \<^verbatim>\<open>{"metrics": [1]}\<close> are extracted, and then
  \<^verbatim>\<open>enumerate\<close> raises \<open>TypeError\<close> and \<^verbatim>\<open>metrics.get\<close> raises \<open>AttributeError\<close>.
  (\<open>fill_and_normalize_well_typed\<close> above is the part that holds.)
\<close>

theorem fill_and_normalize_raises:
  "extract_json (json_loads (\<lambda>x. x)) ''{\"suggestions\": 5}'' =
     Inr (JDict [(''suggestions'', JInt 5)]) \<and>
   fill_and_normalize py_str (JDict [(''suggestions'', JInt 5)]) language code =
     Inl (TypeError (quoted ''int'' @ '' object is not iterable'')) \<and>
   extract_json (json_loads (\<lambda>x. x)) ''{\"metrics\": [1]}'' =
     Inr (JDict [(''metrics'', JList [JInt 1])]) \<and>
   fill_and_normalize py_str (JDict [(''metrics'', JList [JInt 1])]) language code =
     Inl (AttributeError (quoted ''list'' @ '' object has no attribute '' @ quoted ''get''))"
proof -
  have 1: "extract_json (json_loads (\<lambda>x. x)) ''{\"suggestions\": 5}'' =
     Inr (JDict [(''suggestions'', JInt 5)])"
    by code_simp
  have 2: "extract_json (json_loads (\<lambda>x. x)) ''{\"metrics\": [1]}'' =
     Inr (JDict [(''metrics'', JList [JInt 1])])"
    by code_simp
  have 3: "fill_and_normalize py_str (JDict [(''suggestions'', JInt 5)]) language code =
     Inl (TypeError (quoted ''int'' @ '' object is not iterable''))"
    by (simp add: fill_and_normalize_def fill_defaults_def setdefault_def dict_get_def
          normalize_suggestions_def not_iterable_def Let_def)
  have 4: "fill_and_normalize py_str (JDict [(''metrics'', JList [JInt 1])]) language code =
     Inl (AttributeError (quoted ''list'' @ '' object has no attribute '' @ quoted ''get''))"
    by (simp add: fill_and_normalize_def fill_defaults_def setdefault_def dict_get_def
          normalize_suggestions_def normalize_metrics_def no_attribute_def Let_def)
  from 1 2 3 4 show ?thesis by simp
qed

text \<open>
  Claim C8 says that a request with a string \<^verbatim>\<open>code\<close> whose model call and extraction
  succeed is answered with status 200. On the reply \<^verbatim>\<open>{"suggestions": null}\<close> the handler
  returns nothing: the \<open>TypeError\<close> of the normalization, raised after the \<^verbatim>\<open>try\<close> block,
  leaves it. (The answers 400 and 500 are \<open>optimize_bad_request\<close>, \<open>optimize_call_fails\<close>
  and \<open>optimize_extract_fails\<close> above.)
\<close>

theorem optimize_raises_after_extraction:
  "optimize (\<lambda>w language code. (Inr ''{\"suggestions\": null}'', w)) (json_loads (\<lambda>x. x)) py_str w
     (JDict [(''language'', JStr ''c''), (''code'', JStr ''int main(){}'')]) =
   (Inl (TypeError (quoted ''NoneType'' @ '' object is not iterable'')), w)"
proof -
  have 1: "extract_json (json_loads (\<lambda>x. x)) ''{\"suggestions\": null}'' =
     Inr (JDict [(''suggestions'', JNull)])"
    by code_simp
  have 2: "fill_and_normalize py_str (JDict [(''suggestions'', JNull)]) (JStr ''c'') ''int main(){}'' =
     Inl (TypeError (quoted ''NoneType'' @ '' object is not iterable''))"
    by (simp add: fill_and_normalize_def fill_defaults_def setdefault_def dict_get_def
          normalize_suggestions_def not_iterable_def Let_def)
  show ?thesis
    by (simp add: optimize_def Let_def dict_get_def 1 2)
qed

section \<open>The examples of the specification\<close>

text \<open>
  The three extraction examples (fence, surrounding prose, nested object) and the
  end-to-end scenario of the specification, with the decoder of this theory.
\<close>

lemma extract_json_examples:
  "extract_json (json_loads (\<lambda>x. x)) ''```json\<newline>{\"a\":1}\<newline>```'' = Inr (JDict [(''a'', JInt 1)])"
  "extract_json (json_loads (\<lambda>x. x)) ''Sure! Here is the result:\<newline>{\"a\":1}\<newline>Hope that helps.'' =
     Inr (JDict [(''a'', JInt 1)])"
  "extract_json (json_loads (\<lambda>x. x)) ''{\"a\":{\"b\":1}}'' = Inr (JDict [(''a'', JDict [(''b'', JInt 1)])])"
  by code_simp+

lemma optimize_end_to_end:
  "optimize
     (\<lambda>w language code.
        (Inr '' ```json\<newline>{\"optimized_code\":\"int main(void){}\",\"suggestions\":[\"use void\"],\"metrics\":{\"Lines of Code Reduced\":0}}\<newline>``` '', w))
     (json_loads (\<lambda>x. x)) py_str w
     (JDict [(''language'', JStr ''c''), (''code'', JStr ''int main(){}'')]) =
   (Inr (JDict
      [(''optimized_code'', JStr ''int main(void){}''),
       (''suggestions'',
          JList [JDict [(''id'', JStr ''S1''), (''title'', JStr ''use void''),
                        (''detail'', JStr ''use void'')]]),
       (''metrics'',
          JDict [(''language'', JStr ''c''), (''loc_before'', JInt 1), (''loc_after'', JInt 1),
                 (''reduction'', JInt 0), (''redundant_removed'', JNull),
                 (''security_improved'', JBool False)])], 200), w)"
proof -
  have "extract_json (json_loads (\<lambda>x. x))
      '' ```json\<newline>{\"optimized_code\":\"int main(void){}\",\"suggestions\":[\"use void\"],\"metrics\":{\"Lines of Code Reduced\":0}}\<newline>``` '' =
      Inr (JDict [(''optimized_code'', JStr ''int main(void){}''),
                  (''suggestions'', JList [JStr ''use void'']),
                  (''metrics'', JDict [(''Lines of Code Reduced'', JInt 0)])])"
    by code_simp
  then show ?thesis
    by (simp add: optimize_def fill_and_normalize_def fill_defaults_def setdefault_def
          dict_get_def normalize_suggestions_def suggestion_entry_def fallback_id_def
          normalize_metrics_def Let_def)
qed

end
